theory Spec2Isabelle
  imports Main "HOL-Library.Word"
begin

section \<open>The status enumeration and the communication buffer\<close>

text \<open>
  \<^verbatim>\<open>enum BatonStatus : int32_t { UNKNOWN = 0, RUNNING = 1, TIMED_OUT = 2, ABORTED = 3 }\<close>.
  The enumeration has the fixed underlying type \<^verbatim>\<open>int32_t\<close>, so a value of the type is
  any 32-bit pattern and \<^verbatim>\<open>static_cast<BatonStatus>\<close> of an \<^verbatim>\<open>int32_t\<close> keeps the bits.
\<close>

type_synonym BatonStatus = "32 word"

definition UNKNOWN :: BatonStatus where "UNKNOWN = 0"
definition RUNNING :: BatonStatus where "RUNNING = 1"
definition TIMED_OUT :: BatonStatus where "TIMED_OUT = 2"
definition ABORTED :: BatonStatus where "ABORTED = 3"

text \<open>
  \<^verbatim>\<open>comm_\<close> is a pinned tensor of two \<^verbatim>\<open>int32\<close> elements; the kernel sees it as
  \<^verbatim>\<open>int32_t* value\<close>. Element 0 is the abort flag, element 1 the status.
\<close>

record channel =
  abort_flag :: "32 word"
  status_word :: "32 word"

section \<open>Host side: \<^verbatim>\<open>detail::Baton\<close>\<close>

text \<open>\<^verbatim>\<open>void abort() override { comm_[0] = 1; }\<close>\<close>

definition abort :: "channel \<Rightarrow> channel" where
  "abort c = c\<lparr>abort_flag := 1\<rparr>"

text \<open>\<^verbatim>\<open>BatonStatus status() override { return static_cast<BatonStatus>(comm_[1].item<int32_t>()); }\<close>\<close>

definition status :: "channel \<Rightarrow> BatonStatus" where
  "status c = status_word c"

section \<open>Device side: \<^verbatim>\<open>kernel_barrier\<close>\<close>

subsection \<open>The timeout in nanoseconds\<close>

text \<open>
  \<^verbatim>\<open>size_t timeout_ns = timeout_ms * 1e6;\<close> multiplies in double precision: the 64-bit
  count is converted to a double (round to nearest, ties to even, 53 significant bits),
  multiplied by the double 1000000 (rounded the same way) and converted back to
  \<^verbatim>\<open>size_t\<close>. Both roundings yield integers here. A product of \<open>2 ^ 64\<close> or more is
  out of the range of \<^verbatim>\<open>size_t\<close>; the device conversion clamps it to the largest value.
\<close>

fun bit_len :: "nat \<Rightarrow> nat" where
  "bit_len n = (if n = 0 then 0 else Suc (bit_len (n div 2)))"

declare bit_len.simps [simp del]

definition round_double :: "nat \<Rightarrow> nat" where
  "round_double n =
     (let e = bit_len n - 53; q = n div 2 ^ e; r = n mod 2 ^ e
      in if 2 * r < 2 ^ e \<or> (2 * r = 2 ^ e \<and> even q) then q * 2 ^ e else (q + 1) * 2 ^ e)"

definition timeout_ns_of :: "64 word \<Rightarrow> 64 word" where
  "timeout_ns_of timeout_ms =
     (let p = round_double (round_double (unat timeout_ms) * 1000000)
      in if p < 2 ^ 64 then of_nat p else - 1)"

subsection \<open>The kernel, one memory or clock access at a time\<close>

text \<open>
  The host and the device share nothing but the two words, so the kernel is modelled by
  its program points; a step performs the one access to the buffer or to the device
  clock that lies between two program points (lines of \<^verbatim>\<open>Baton.cu\<close> in brackets).
  The locals \<^verbatim>\<open>start\<close> and \<^verbatim>\<open>timeout_ns\<close> travel with the program point.
\<close>

datatype kernel_pc =
    Queued \<comment> \<open>launched [45], body not begun\<close>
  | AtReadStart \<comment> \<open>after [14]\<close>
  | AtReadFlag "64 word" "64 word" \<comment> \<open>loop head, before [20]\<close>
  | AtWriteAborted \<comment> \<open>[22] held, before [23]\<close>
  | AtCheckTimeout "64 word" "64 word" \<comment> \<open>[22] failed, before [27]\<close>
  | AtWriteTimedOut \<comment> \<open>[30] held, before [31]\<close>
  | AtNanosleep "64 word" "64 word" nat \<comment> \<open>before [37], with the requested duration\<close>
  | Returned

fun kernel_barrier ::
  "64 word \<Rightarrow> 64 word \<Rightarrow> kernel_pc \<Rightarrow> channel \<Rightarrow> kernel_pc \<times> channel" where
  "kernel_barrier timeout_ms now Queued v =
     (AtReadStart, v\<lparr>status_word := RUNNING\<rparr>)"
| "kernel_barrier timeout_ms now AtReadStart v =
     (AtReadFlag now (timeout_ns_of timeout_ms), v)"
| "kernel_barrier timeout_ms now (AtReadFlag start timeout_ns) v =
     (if abort_flag v = 1 then (AtWriteAborted, v)
      else (AtCheckTimeout start timeout_ns, v))"
| "kernel_barrier timeout_ms now AtWriteAborted v =
     (Returned, v\<lparr>status_word := ABORTED\<rparr>)"
| "kernel_barrier timeout_ms now (AtCheckTimeout start timeout_ns) v =
     (if timeout_ms > 0 then
        (if now - start > timeout_ns then (AtWriteTimedOut, v)
         else (AtNanosleep start timeout_ns 1000000, v))
      else (AtNanosleep start timeout_ns 1000000, v))"
| "kernel_barrier timeout_ms now AtWriteTimedOut v =
     (Returned, v\<lparr>status_word := TIMED_OUT\<rparr>)"
| "kernel_barrier timeout_ms now (AtNanosleep start timeout_ns d) v =
     (AtReadFlag start timeout_ns, v)"
| "kernel_barrier timeout_ms now Returned v = (Returned, v)"

text \<open>What the next step of the kernel stores into the status word, and what it sleeps.\<close>

fun next_write :: "kernel_pc \<Rightarrow> BatonStatus list" where
  "next_write Queued = [RUNNING]"
| "next_write AtWriteAborted = [ABORTED]"
| "next_write AtWriteTimedOut = [TIMED_OUT]"
| "next_write _ = []"

fun next_sleep :: "kernel_pc \<Rightarrow> nat list" where
  "next_sleep (AtNanosleep start timeout_ns d) = [d]"
| "next_sleep _ = []"

section \<open>Host and device together\<close>

text \<open>
  A system state holds the members of \<^verbatim>\<open>detail::Baton\<close> (\<^verbatim>\<open>comm_\<close> and \<^verbatim>\<open>timeout_\<close>,
  here without the trailing underscore, which Isabelle reserves), the program point of
  the kernel it launched, and the device's global timer in nanoseconds;
  \<^verbatim>\<open>global_timer_ns()\<close> reads the timer as a 64-bit value. The count of
  \<^verbatim>\<open>std::chrono::milliseconds\<close> is a signed 64-bit integer that the launch passes as
  \<^verbatim>\<open>size_t\<close>, bit for bit.
\<close>

record sys =
  comm :: channel
  timeout :: "64 word"
  kernel :: kernel_pc
  timer :: nat

definition global_timer_ns :: "sys \<Rightarrow> 64 word" where
  "global_timer_ns s = of_nat (timer s)"

text \<open>
  \<^verbatim>\<open>Baton::Baton(timeout)\<close>: \<^verbatim>\<open>comm_{at::empty({2}, kInt).pin_memory()}\<close>,
  \<^verbatim>\<open>timeout_{timeout}\<close>, then the launch of \<^verbatim>\<open>kernel_barrier\<close> with
  \<^verbatim>\<open>timeout_.count()\<close> as its \<^verbatim>\<open>size_t timeout_ms\<close>. \<^verbatim>\<open>at::empty\<close> returns storage that
  nobody has written: its content \<open>mem\<close> is whatever the allocator hands back, and the
  constructor stores nothing into it. \<open>now\<close> is the device timer at construction.
\<close>

definition Baton_init :: "channel \<Rightarrow> nat \<Rightarrow> 64 word \<Rightarrow> sys" where
  "Baton_init mem now t =
     \<lparr>comm = mem, timeout = t, kernel = Queued, timer = now\<rparr>"

text \<open>
  The events of a run: the kernel performs its next step, time passes on the device,
  a host thread calls \<^verbatim>\<open>abort()\<close>, a host thread calls \<^verbatim>\<open>status()\<close>.
\<close>

datatype event = Dev | Tick nat | HostAbort | HostStatus

fun step :: "sys \<Rightarrow> event \<Rightarrow> sys" where
  "step s Dev =
     (case kernel_barrier (timeout s) (global_timer_ns s) (kernel s) (comm s) of
        (pc, v) \<Rightarrow> s\<lparr>comm := v, kernel := pc\<rparr>)"
| "step s (Tick d) = s\<lparr>timer := timer s + d\<rparr>"
| "step s HostAbort = s\<lparr>comm := abort (comm s)\<rparr>"
| "step s HostStatus = s"

fun run :: "sys \<Rightarrow> event list \<Rightarrow> sys" where
  "run s [] = s"
| "run s (e # evs) = run (step s e) evs"

text \<open>The results of the \<^verbatim>\<open>status()\<close> calls of a run, in order.\<close>

fun polled :: "sys \<Rightarrow> event \<Rightarrow> BatonStatus list" where
  "polled s HostStatus = [status (comm s)]"
| "polled s _ = []"

fun polls :: "sys \<Rightarrow> event list \<Rightarrow> BatonStatus list" where
  "polls s [] = []"
| "polls s (e # evs) = polled s e @ polls (step s e) evs"

text \<open>The values the kernel stores into the status word during a run, in order.\<close>

fun stored :: "sys \<Rightarrow> event \<Rightarrow> BatonStatus list" where
  "stored s Dev = next_write (kernel s)"
| "stored s _ = []"

fun writes :: "sys \<Rightarrow> event list \<Rightarrow> BatonStatus list" where
  "writes s [] = []"
| "writes s (e # evs) = stored s e @ writes (step s e) evs"

text \<open>The durations of the \<^verbatim>\<open>__nanosleep\<close> calls the kernel makes during a run.\<close>

fun slept :: "sys \<Rightarrow> event \<Rightarrow> nat list" where
  "slept s Dev = next_sleep (kernel s)"
| "slept s _ = []"

fun sleeps :: "sys \<Rightarrow> event list \<Rightarrow> nat list" where
  "sleeps s [] = []"
| "sleeps s (e # evs) = slept s e @ sleeps (step s e) evs"

section \<open>Construction through the registry\<close>

datatype error = AllocationError | KernelLaunchError | CheckFailed string

text \<open>
  Modelled from the spec: \<^verbatim>\<open>at::empty\<close>, \<^verbatim>\<open>pin_memory\<close> and the macro
  \<^verbatim>\<open>C10_CUDA_KERNEL_LAUNCH_CHECK\<close> are not among the sources; construction "fails
  fatally (propagated as a construction error, not retried) if allocation or enqueue
  fails". \<open>alloc\<close> is \<open>None\<close> when the allocation throws and the fresh storage
  otherwise; \<open>launched\<close> tells whether the launch check passes.
\<close>

definition Baton_ctor :: "channel option \<Rightarrow> bool \<Rightarrow> nat \<Rightarrow> 64 word \<Rightarrow> error + sys" where
  "Baton_ctor alloc launched now t =
     (case alloc of
        None \<Rightarrow> Inl AllocationError
      | Some mem \<Rightarrow> if launched then Inr (Baton_init mem now t) else Inl KernelLaunchError)"

text \<open>
  Modelled from the spec: the registry template (\<^verbatim>\<open>c10/util/Registry.h\<close>) is not among
  the sources; "\<^verbatim>\<open>register(name, factory)\<close> associates a name with a constructor;
  \<^verbatim>\<open>create(name, timeout)\<close> returns a Baton instance or a failure if the name is
  unregistered". The failure is the null pointer that \<^verbatim>\<open>baton\<close> tests for; an
  exception of the constructor passes through.
\<close>

type_synonym BatonRegistry = "string \<rightharpoonup> (64 word \<Rightarrow> error + sys)"

definition Register :: "BatonRegistry \<Rightarrow> string \<Rightarrow> (64 word \<Rightarrow> error + sys) \<Rightarrow> BatonRegistry" where
  "Register reg key creator = reg(key \<mapsto> creator)"

definition Create :: "BatonRegistry \<Rightarrow> string \<Rightarrow> 64 word \<Rightarrow> error + sys option" where
  "Create reg key t =
     (case reg key of
        None \<Rightarrow> Inr None
      | Some creator \<Rightarrow> (case creator t of Inl e \<Rightarrow> Inl e | Inr b \<Rightarrow> Inr (Some b)))"

text \<open>
  \<^verbatim>\<open>auto baton = BatonRegistry()->Create("CUDA", timeout);
  TORCH_CHECK(baton, "Failed to create baton"); return baton;\<close>
  The result is a \<^verbatim>\<open>unique_ptr\<close>, which may be null: \<open>None\<close>.
\<close>

definition baton :: "BatonRegistry \<Rightarrow> 64 word \<Rightarrow> error + sys option" where
  "baton reg t =
     (case Create reg ''CUDA'' t of
        Inl e \<Rightarrow> Inl e
      | Inr b \<Rightarrow> if b = None then Inl (CheckFailed ''Failed to create baton'') else Inr b)"

section \<open>Invariants of a run\<close>

text \<open>The locals of the kernel: \<^verbatim>\<open>timeout_ns\<close> is the converted argument, the sleep is 1 ms.\<close>

fun locals_ok :: "64 word \<Rightarrow> kernel_pc \<Rightarrow> bool" where
  "locals_ok t (AtReadFlag start timeout_ns) = (timeout_ns = timeout_ns_of t)"
| "locals_ok t (AtCheckTimeout start timeout_ns) = (timeout_ns = timeout_ns_of t)"
| "locals_ok t (AtNanosleep start timeout_ns d) = (timeout_ns = timeout_ns_of t \<and> d = 1000000)"
| "locals_ok t _ = True"

text \<open>
  The status word and the kernel's stores so far, by program point: \<open>w0\<close> is the word
  the buffer was created with, \<open>w\<close> the word now, \<open>ws\<close> the stores in order.
\<close>

fun trace_ok :: "BatonStatus \<Rightarrow> kernel_pc \<Rightarrow> BatonStatus \<Rightarrow> BatonStatus list \<Rightarrow> bool" where
  "trace_ok w0 Queued w ws = (w = w0 \<and> ws = [])"
| "trace_ok w0 Returned w ws = (ws = [RUNNING, w] \<and> (w = TIMED_OUT \<or> w = ABORTED))"
| "trace_ok w0 _ w ws = (w = RUNNING \<and> ws = [RUNNING])"

text \<open>
  A state in which the abort flag is set and no timeout check lies before the kernel's
  next read of it: the kernel is not between the flag read and a check with a positive
  timeout.
\<close>

definition abort_pending :: "sys \<Rightarrow> bool" where
  "abort_pending s \<longleftrightarrow>
     abort_flag (comm s) = 1 \<and>
     (case kernel s of
        AtCheckTimeout start timeout_ns \<Rightarrow> timeout s = 0
      | AtWriteTimedOut \<Rightarrow> False
      | Returned \<Rightarrow> status_word (comm s) = ABORTED
      | _ \<Rightarrow> True)"

text \<open>Device steps, and sleeps, left until the kernel has returned in such a state.\<close>

fun steps_left :: "kernel_pc \<Rightarrow> nat" where
  "steps_left Queued = 4"
| "steps_left AtReadStart = 3"
| "steps_left (AtReadFlag start timeout_ns) = 2"
| "steps_left AtWriteAborted = 1"
| "steps_left (AtCheckTimeout start timeout_ns) = 4"
| "steps_left AtWriteTimedOut = 1"
| "steps_left (AtNanosleep start timeout_ns d) = 3"
| "steps_left Returned = 0"

fun sleeps_left :: "kernel_pc \<Rightarrow> nat" where
  "sleeps_left (AtCheckTimeout start timeout_ns) = 1"
| "sleeps_left (AtNanosleep start timeout_ns d) = 1"
| "sleeps_left _ = 0"

text \<open>The local \<^verbatim>\<open>start\<close> at the program points inside the loop.\<close>

fun loop_start :: "kernel_pc \<Rightarrow> 64 word option" where
  "loop_start (AtReadFlag start timeout_ns) = Some start"
| "loop_start (AtCheckTimeout start timeout_ns) = Some start"
| "loop_start (AtNanosleep start timeout_ns d) = Some start"
| "loop_start _ = None"

text \<open>
  The timeout check at [27]-[30] as the kernel would decide it in state \<open>s\<close>, and
  whether the kernel's next step in a run is such a check that finds the timeout
  exceeded.
\<close>

definition fires :: "sys \<Rightarrow> bool" where
  "fires s \<longleftrightarrow>
     (case kernel s of
        AtCheckTimeout start timeout_ns \<Rightarrow>
          timeout s > 0 \<and> global_timer_ns s - start > timeout_ns
      | _ \<Rightarrow> False)"

fun check_fires :: "sys \<Rightarrow> event list \<Rightarrow> bool" where
  "check_fires s [] = False"
| "check_fires s (Dev # evs) = fires s"
| "check_fires s (e # evs) = check_fires (step s e) evs"

section \<open>Basic facts\<close>

lemma run_append: "run s (xs @ ys) = run (run s xs) ys"
  by (induction xs arbitrary: s) simp_all

lemma polls_append: "polls s (xs @ ys) = polls s xs @ polls (run s xs) ys"
  by (induction xs arbitrary: s) simp_all

lemma writes_append: "writes s (xs @ ys) = writes s xs @ writes (run s xs) ys"
  by (induction xs arbitrary: s) simp_all

lemma sleeps_append: "sleeps s (xs @ ys) = sleeps s xs @ sleeps (run s xs) ys"
  by (induction xs arbitrary: s) simp_all

lemma stored_host [simp]: "e \<noteq> Dev \<Longrightarrow> stored s e = []"
  by (cases e) simp_all

lemma slept_host [simp]: "e \<noteq> Dev \<Longrightarrow> slept s e = []"
  by (cases e) simp_all

lemma polled_other [simp]: "e \<noteq> HostStatus \<Longrightarrow> polled s e = []"
  by (cases e) simp_all

lemma polled_subset: "set (polled s e) \<subseteq> {status (comm s)}"
  by (cases e) simp_all

lemma kernel_barrier_write:
  "kernel_barrier t now pc v = (pc', v') \<Longrightarrow>
     v' = (case next_write pc of [] \<Rightarrow> v | x # xs \<Rightarrow> v\<lparr>status_word := x\<rparr>)"
  by (cases pc) (auto split: if_splits)

lemma step_timeout [simp]: "timeout (step s e) = timeout s"
  by (cases e) (simp_all split: prod.splits)

lemma run_timeout [simp]: "timeout (run s evs) = timeout s"
  by (induction evs arbitrary: s) simp_all

subsection \<open>Host events and the kernel's locals\<close>

lemma host_step:
  "e \<noteq> Dev \<Longrightarrow> kernel (step s e) = kernel s \<and>
     status_word (comm (step s e)) = status_word (comm s)"
  by (cases e) (simp_all add: abort_def)

lemma host_only_run:
  "Dev \<notin> set h \<Longrightarrow> kernel (run s h) = kernel s \<and>
     status_word (comm (run s h)) = status_word (comm s) \<and>
     writes s h = [] \<and> sleeps s h = []"
proof (induction h arbitrary: s)
  case Nil
  then show ?case by simp
next
  case (Cons e h)
  then have "e \<noteq> Dev" and "Dev \<notin> set h" by auto
  then show ?case using Cons.IH [of "step s e"] host_step [of e s] by simp
qed

lemma locals_ok_step: "locals_ok (timeout s) (kernel s) \<Longrightarrow> locals_ok (timeout s) (kernel (step s e))"
proof (cases e)
  case Dev
  assume "locals_ok (timeout s) (kernel s)"
  then show ?thesis using Dev by (cases "kernel s") (auto split: if_splits)
next
  case (Tick d)
  assume "locals_ok (timeout s) (kernel s)"
  then show ?thesis using Tick by simp
next
  case HostAbort
  assume "locals_ok (timeout s) (kernel s)"
  then show ?thesis using HostAbort by simp
next
  case HostStatus
  assume "locals_ok (timeout s) (kernel s)"
  then show ?thesis using HostStatus by simp
qed

lemma locals_ok_run: "locals_ok (timeout s) (kernel s) \<Longrightarrow> locals_ok (timeout s) (kernel (run s evs))"
proof (induction evs arbitrary: s)
  case Nil
  then show ?case by simp
next
  case (Cons e evs)
  have "locals_ok (timeout (step s e)) (kernel (step s e))"
    using Cons.prems locals_ok_step by simp
  from Cons.IH [OF this] show ?case by simp
qed

lemma locals_ok_reachable: "locals_ok t (kernel (run (Baton_init mem now t) evs))"
  using locals_ok_run [of "Baton_init mem now t" evs] by (simp add: Baton_init_def)

subsection \<open>The timeout conversion\<close>

lemma bit_len_le: "bit_len n \<le> k \<longleftrightarrow> n < 2 ^ k"
proof (induction n arbitrary: k rule: bit_len.induct)
  case (1 n)
  show ?case
  proof (cases "n = 0")
    case True
    then show ?thesis by (simp add: bit_len.simps)
  next
    case False
    show ?thesis
    proof (cases k)
      case 0
      with False show ?thesis by (simp add: bit_len.simps)
    next
      case (Suc j)
      have "bit_len n \<le> Suc j \<longleftrightarrow> bit_len (n div 2) \<le> j"
        using False by (simp add: bit_len.simps)
      also have "\<dots> \<longleftrightarrow> n div 2 < 2 ^ j"
        using 1 False by simp
      also have "\<dots> \<longleftrightarrow> n < 2 ^ Suc j"
        by auto
      finally show ?thesis using Suc by simp
    qed
  qed
qed

lemma round_double_small: "n < 2 ^ 53 \<Longrightarrow> round_double n = n"
proof -
  assume "n < 2 ^ 53"
  then have "bit_len n - 53 = 0" using bit_len_le [of n 53] by simp
  then show ?thesis by (simp add: round_double_def)
qed

lemma round_double_exact:
  assumes "2 ^ j dvd n" and "n < 2 ^ (53 + j)"
  shows "round_double n = n"
proof -
  define e where "e = bit_len n - 53"
  have "bit_len n \<le> 53 + j" using assms(2) bit_len_le by blast
  then have "e \<le> j" by (simp add: e_def)
  then have "(2::nat) ^ e dvd 2 ^ j" by (simp add: le_imp_power_dvd)
  then have d: "2 ^ e dvd n" using assms(1) dvd_trans by blast
  then have "n mod 2 ^ e = 0" by simp
  moreover have "n div 2 ^ e * 2 ^ e = n" using d by simp
  ultimately show ?thesis
    unfolding round_double_def Let_def e_def [symmetric] by simp
qed

lemma timeout_ns_of_exact:
  assumes "unat t * 15625 < 2 ^ 53"
  shows "timeout_ns_of t = t * 1000000"
proof -
  have small: "unat t < 2 ^ 53" using assms by simp
  have p: "unat t * 1000000 < 2 ^ (53 + 6)" using assms by simp
  have "(2::nat) ^ 6 dvd unat t * 1000000" by simp
  then have "round_double (unat t * 1000000) = unat t * 1000000"
    using p round_double_exact by blast
  moreover have "unat t * 1000000 < 2 ^ 64" using p by simp
  ultimately show ?thesis
    by (simp add: timeout_ns_of_def round_double_small [OF small])
qed

lemma timeout_ns_of_0: "timeout_ns_of 0 = 0"
  using timeout_ns_of_exact [of 0] by simp

lemma timeout_ns_of_1: "timeout_ns_of 1 = 1000000"
  using timeout_ns_of_exact [of 1] by simp

subsection \<open>The stores of the kernel and the status word\<close>

lemma trace_ok_step:
  assumes "trace_ok w0 (kernel s) (status_word (comm s)) ws"
  shows "trace_ok w0 (kernel (step s e)) (status_word (comm (step s e))) (ws @ writes s [e])"
proof (cases e)
  case Dev
  then show ?thesis using assms
    by (cases "kernel s") (auto split: if_splits)
next
  case (Tick d)
  then show ?thesis using assms by simp
next
  case HostAbort
  then show ?thesis using assms by (simp add: abort_def)
next
  case HostStatus
  then show ?thesis using assms by simp
qed

lemma trace_ok_run:
  "trace_ok w0 (kernel s) (status_word (comm s)) ws \<Longrightarrow>
     trace_ok w0 (kernel (run s evs)) (status_word (comm (run s evs))) (ws @ writes s evs)"
proof (induction evs arbitrary: s ws)
  case Nil
  then show ?case by simp
next
  case (Cons e evs)
  have "trace_ok w0 (kernel (step s e)) (status_word (comm (step s e))) (ws @ writes s [e])"
    using Cons.prems by (rule trace_ok_step)
  from Cons.IH [OF this] show ?case by simp
qed

lemma trace_ok_reachable:
  "trace_ok (status_word mem) (kernel (run (Baton_init mem now t) evs))
     (status_word (comm (run (Baton_init mem now t) evs))) (writes (Baton_init mem now t) evs)"
  using trace_ok_run [of "status_word mem" "Baton_init mem now t" "[]" evs]
  by (simp add: Baton_init_def)

lemma returned_step:
  "kernel s = Returned \<Longrightarrow>
     kernel (step s e) = Returned \<and> status_word (comm (step s e)) = status_word (comm s)"
  by (cases e) (simp_all add: abort_def)

lemma returned_quiet:
  "kernel s = Returned \<Longrightarrow> stored s e = [] \<and> slept s e = []"
  by (cases e) simp_all

lemma returned_run:
  "kernel s = Returned \<Longrightarrow>
     kernel (run s evs) = Returned \<and> status_word (comm (run s evs)) = status_word (comm s)
       \<and> writes s evs = [] \<and> sleeps s evs = []"
proof (induction evs arbitrary: s)
  case Nil
  then show ?case by simp
next
  case (Cons e evs)
  have k: "kernel (step s e) = Returned"
    and w: "status_word (comm (step s e)) = status_word (comm s)"
    using Cons.prems returned_step by simp_all
  show ?case using Cons.IH [OF k] w returned_quiet [OF Cons.prems, of e] by simp
qed

lemma returned_polls:
  "kernel s = Returned \<Longrightarrow> set (polls s evs) \<subseteq> {status (comm s)}"
proof (induction evs arbitrary: s)
  case Nil
  then show ?case by simp
next
  case (Cons e evs)
  have k: "kernel (step s e) = Returned"
    and w: "status_word (comm (step s e)) = status_word (comm s)"
    using Cons.prems returned_step by simp_all
  show ?case using Cons.IH [OF k] w polled_subset [of s e] by (auto simp: status_def)
qed

lemma polls_mem:
  "v \<in> set (polls s evs) \<Longrightarrow>
     \<exists>xs ys. evs = xs @ HostStatus # ys \<and> v = status (comm (run s xs))"
proof (induction evs arbitrary: s)
  case Nil
  then show ?case by simp
next
  case (Cons e evs)
  show ?case
  proof (cases "e = HostStatus \<and> v = status (comm s)")
    case True
    then have "e # evs = [] @ HostStatus # evs \<and> v = status (comm (run s []))" by simp
    then show ?thesis by blast
  next
    case False
    then have "v \<notin> set (polled s e)" by (cases e) auto
    then have "v \<in> set (polls (step s e) evs)" using Cons.prems by simp
    then obtain xs ys where "evs = xs @ HostStatus # ys" and "v = status (comm (run (step s e) xs))"
      using Cons.IH by blast
    then have "e # evs = (e # xs) @ HostStatus # ys \<and> v = status (comm (run s (e # xs)))" by simp
    then show ?thesis by blast
  qed
qed

lemma writes_prefix: "set (writes s xs) \<subseteq> set (writes s (xs @ ys))"
  by (simp add: writes_append)

lemma terminal_neq: "TIMED_OUT \<noteq> RUNNING" "ABORTED \<noteq> RUNNING" "TIMED_OUT \<noteq> ABORTED"
  "UNKNOWN \<noteq> TIMED_OUT" "UNKNOWN \<noteq> ABORTED" "UNKNOWN \<noteq> RUNNING"
  by (simp_all add: TIMED_OUT_def RUNNING_def ABORTED_def UNKNOWN_def)

text \<open>
  A terminal status word, in a run from a buffer whose word was not terminal at
  construction, means that the kernel has returned after storing it.
\<close>

lemma terminal_word_written:
  assumes "status_word mem \<noteq> TIMED_OUT" and "status_word mem \<noteq> ABORTED"
    and "s = run (Baton_init mem now t) evs"
    and "status_word (comm s) = TIMED_OUT \<or> status_word (comm s) = ABORTED"
  shows "kernel s = Returned \<and> writes (Baton_init mem now t) evs = [RUNNING, status_word (comm s)]"
proof -
  have ok: "trace_ok (status_word mem) (kernel s) (status_word (comm s)) (writes (Baton_init mem now t) evs)"
    using trace_ok_reachable assms(3) by simp
  show ?thesis
  proof (cases "kernel s")
    case Queued
    then show ?thesis using ok assms by auto
  next
    case Returned
    then show ?thesis using ok by simp
  qed (use ok assms(4) terminal_neq in auto)
qed

section \<open>The status word before the kernel has begun\<close>

lemma polls_host_only:
  "Dev \<notin> set evs \<Longrightarrow> set (polls s evs) \<subseteq> {status_word (comm s)}"
proof (induction evs arbitrary: s)
  case Nil
  then show ?case by simp
next
  case (Cons e evs)
  then have "e \<noteq> Dev" and "Dev \<notin> set evs" by auto
  then show ?case using Cons.IH [of "step s e"] host_step [of e s] polled_subset [of s e]
    by (auto simp: status_def)
qed

lemma polls_before_kernel:
  "Dev \<notin> set evs \<Longrightarrow> set (polls (Baton_init mem now t) evs) \<subseteq> {status_word mem}"
  using polls_host_only [of evs "Baton_init mem now t"] by (simp add: Baton_init_def)

lemma polls_before_kernel_zeroed:
  "Dev \<notin> set evs \<Longrightarrow>
     set (polls (Baton_init \<lparr>abort_flag = 0, status_word = 0\<rparr> now t) evs) \<subseteq> {UNKNOWN}"
  using polls_before_kernel [of evs "\<lparr>abort_flag = 0, status_word = 0\<rparr>" now t]
  by (simp add: UNKNOWN_def)

text \<open>
  C1. The specification: construction zero-initialises the buffer, so that \<^verbatim>\<open>status()\<close> returns
  UNKNOWN at any time before the kernel has begun. The constructor takes the buffer
  from \<^verbatim>\<open>at::empty\<close> and stores nothing into it: with storage that comes back holding
  2 in its second word, a \<^verbatim>\<open>status()\<close> call made while the kernel is still queued
  returns TIMED_OUT. (With zeroed storage the answer is UNKNOWN:
  \<open>polls_before_kernel_zeroed\<close>.)
\<close>

theorem status_before_kernel_uninitialised:
  "kernel (run (Baton_init \<lparr>abort_flag = 0, status_word = 2\<rparr> 0 1000) [HostStatus]) = Queued \<and>
   polls (Baton_init \<lparr>abort_flag = 0, status_word = 2\<rparr> 0 1000) [HostStatus] = [TIMED_OUT]"
  by (simp add: Baton_init_def status_def TIMED_OUT_def)

section \<open>One iteration of the wait loop\<close>

text \<open>
  C2, as stated: any nonzero abort flag makes the iteration store ABORTED and return.
  The kernel compares the flag with 1 (\<^verbatim>\<open>current_value == 1\<close>): with the flag at 2 the
  iteration that reads it goes on to the timeout check and to the sleep, and stores
  nothing.
\<close>

theorem nonzero_flag_not_abort_counterexample:
  "abort_flag (comm (run (Baton_init \<lparr>abort_flag = 2, status_word = 0\<rparr> 0 1) [Dev, Dev])) \<noteq> 0 \<and>
   kernel (run (Baton_init \<lparr>abort_flag = 2, status_word = 0\<rparr> 0 1) [Dev, Dev]) = AtReadFlag 0 1000000 \<and>
   kernel (run (Baton_init \<lparr>abort_flag = 2, status_word = 0\<rparr> 0 1) [Dev, Dev, Dev, Dev])
     = AtNanosleep 0 1000000 1000000 \<and>
   writes (run (Baton_init \<lparr>abort_flag = 2, status_word = 0\<rparr> 0 1) [Dev, Dev]) [Dev, Dev] = []"
  by (simp add: Baton_init_def global_timer_ns_def timeout_ns_of_1)

lemma loop_head:
  "kernel s = AtReadStart \<or> kernel s = AtNanosleep start tn d \<Longrightarrow>
     \<exists>start' tn'. kernel (step s Dev) = AtReadFlag start' tn'"
  by auto

text \<open>
  C2, amended: every iteration starts with the read of the abort flag (\<open>loop_head\<close>); a
  flag equal to 1 makes the kernel store ABORTED and return without a sleep, whatever
  the device timer shows and whatever the host does meanwhile (the timeout is not
  looked at); any other value sends the iteration on to the timeout check.
\<close>

theorem abort_check_first:
  assumes "kernel s = AtReadFlag start tn" and "Dev \<notin> set h1" and "Dev \<notin> set h2"
  shows "(abort_flag (comm s) = 1 \<longrightarrow>
           kernel (run s (Dev # h1 @ Dev # h2)) = Returned \<and>
           status (comm (run s (Dev # h1 @ Dev # h2))) = ABORTED \<and>
           writes s (Dev # h1 @ Dev # h2) = [ABORTED] \<and>
           sleeps s (Dev # h1 @ Dev # h2) = []) \<and>
         (abort_flag (comm s) \<noteq> 1 \<longrightarrow>
           step s Dev = s\<lparr>kernel := AtCheckTimeout start tn\<rparr> \<and> writes s [Dev] = [])"
proof -
  have yes: "kernel (run s (Dev # h1 @ Dev # h2)) = Returned \<and>
           status (comm (run s (Dev # h1 @ Dev # h2))) = ABORTED \<and>
           writes s (Dev # h1 @ Dev # h2) = [ABORTED] \<and>
           sleeps s (Dev # h1 @ Dev # h2) = []" if f: "abort_flag (comm s) = 1"
  proof -
    define s1 where "s1 = run s (Dev # h1)"
    have k0: "kernel (step s Dev) = AtWriteAborted"
      using assms(1) f by simp
    have k1: "kernel s1 = AtWriteAborted"
      and w1: "writes s (Dev # h1) = []" and z1: "sleeps s (Dev # h1) = []"
      using host_only_run [OF assms(2), of "step s Dev"] k0 assms(1) by (simp_all add: s1_def)
    have k2: "kernel (step s1 Dev) = Returned"
      and c2: "status_word (comm (step s1 Dev)) = ABORTED"
      using k1 by simp_all
    have "kernel (run s1 (Dev # h2)) = Returned"
      and "status_word (comm (run s1 (Dev # h2))) = ABORTED"
      and "writes s1 (Dev # h2) = [ABORTED]" and "sleeps s1 (Dev # h2) = []"
      using host_only_run [OF assms(3), of "step s1 Dev"] k1 k2 c2 by simp_all
    moreover have "run s (Dev # h1 @ Dev # h2) = run s1 (Dev # h2)"
      using run_append [of s "Dev # h1" "Dev # h2"] by (simp add: s1_def)
    moreover have "writes s (Dev # h1 @ Dev # h2) = writes s1 (Dev # h2)"
      using writes_append [of s "Dev # h1" "Dev # h2"] w1 by (simp add: s1_def)
    moreover have "sleeps s (Dev # h1 @ Dev # h2) = sleeps s1 (Dev # h2)"
      using sleeps_append [of s "Dev # h1" "Dev # h2"] z1 by (simp add: s1_def)
    ultimately show ?thesis by (simp add: status_def)
  qed
  have no: "step s Dev = s\<lparr>kernel := AtCheckTimeout start tn\<rparr> \<and> writes s [Dev] = []"
    if "abort_flag (comm s) \<noteq> 1"
    using that assms(1) by simp
  show ?thesis using yes no by blast
qed

theorem abort_check_first_witness:
  "global_timer_ns (run \<lparr>comm = \<lparr>abort_flag = 1, status_word = 1\<rparr>, timeout = 1,
        kernel = AtReadFlag 0 1000000, timer = 0\<rparr> [Tick 5000000]) - 0 > 1000000 \<and>
   status (comm (run (run \<lparr>comm = \<lparr>abort_flag = 1, status_word = 1\<rparr>, timeout = 1,
        kernel = AtReadFlag 0 1000000, timer = 0\<rparr> [Tick 5000000])
        (Dev # [HostStatus] @ Dev # [Tick 7]))) = ABORTED \<and>
   step \<lparr>comm = \<lparr>abort_flag = 0, status_word = 1\<rparr>, timeout = 1,
         kernel = AtReadFlag 0 1000000, timer = 0\<rparr> Dev =
     \<lparr>comm = \<lparr>abort_flag = 0, status_word = 1\<rparr>, timeout = 1,
      kernel = AtCheckTimeout 0 1000000, timer = 0\<rparr>"
  using abort_check_first
      [of "run \<lparr>comm = \<lparr>abort_flag = 1, status_word = 1\<rparr>, timeout = 1,
            kernel = AtReadFlag 0 1000000, timer = 0\<rparr> [Tick 5000000]" 0 1000000
          "[HostStatus]" "[Tick 7]"]
    abort_check_first
      [of "\<lparr>comm = \<lparr>abort_flag = 0, status_word = 1\<rparr>, timeout = 1,
            kernel = AtReadFlag 0 1000000, timer = 0\<rparr>" 0 1000000 "[]" "[]"]
  by (simp add: global_timer_ns_def)

subsection \<open>The start of the loop and the elapsed time\<close>

lemma loop_start_step:
  assumes "loop_start (kernel (step s e)) = Some st"
  shows "(kernel s = AtReadStart \<and> e = Dev \<and> st = global_timer_ns s) \<or>
         loop_start (kernel s) = Some st"
proof (cases e)
  case Dev
  then show ?thesis using assms by (cases "kernel s") (auto split: if_splits)
next
  case (Tick d)
  then show ?thesis using assms by simp
next
  case HostAbort
  then show ?thesis using assms by simp
next
  case HostStatus
  then show ?thesis using assms by simp
qed

lemma loop_start_origin:
  "loop_start (kernel (run s0 evs)) = Some st \<Longrightarrow> loop_start (kernel s0) = None \<Longrightarrow>
     \<exists>evs0 evs1. evs = evs0 @ Dev # evs1 \<and> kernel (run s0 evs0) = AtReadStart \<and>
       st = global_timer_ns (run s0 evs0)"
proof (induction evs rule: rev_induct)
  case Nil
  then show ?case by simp
next
  case (snoc e xs)
  have r: "run s0 (xs @ [e]) = step (run s0 xs) e" by (simp add: run_append)
  from snoc.prems(1) r
  have "(kernel (run s0 xs) = AtReadStart \<and> e = Dev \<and> st = global_timer_ns (run s0 xs)) \<or>
         loop_start (kernel (run s0 xs)) = Some st"
    using loop_start_step [of "run s0 xs" e st] by simp
  then show ?case
  proof
    assume "kernel (run s0 xs) = AtReadStart \<and> e = Dev \<and> st = global_timer_ns (run s0 xs)"
    then have "xs @ [e] = xs @ Dev # [] \<and> kernel (run s0 xs) = AtReadStart \<and>
       st = global_timer_ns (run s0 xs)" by simp
    then show ?thesis by blast
  next
    assume "loop_start (kernel (run s0 xs)) = Some st"
    then obtain evs0 evs1 where "xs = evs0 @ Dev # evs1" and "kernel (run s0 evs0) = AtReadStart"
      and "st = global_timer_ns (run s0 evs0)"
      using snoc.IH snoc.prems(2) by blast
    then have "xs @ [e] = evs0 @ Dev # (evs1 @ [e]) \<and> kernel (run s0 evs0) = AtReadStart \<and>
       st = global_timer_ns (run s0 evs0)" by simp
    then show ?thesis by blast
  qed
qed

lemma timer_step: "timer s \<le> timer (step s e)"
  by (cases e) (simp_all split: prod.splits)

lemma timer_run: "timer s \<le> timer (run s evs)"
proof (induction evs arbitrary: s)
  case Nil
  then show ?case by simp
next
  case (Cons e evs)
  show ?case using Cons.IH [of "step s e"] timer_step [of s e] by simp
qed

lemma elapsed_since:
  "global_timer_ns (run s evs) - global_timer_ns s = of_nat (timer (run s evs) - timer s)"
  using timer_run [of s evs] by (simp add: global_timer_ns_def)

lemma start_is_timer_read:
  assumes "kernel (run (Baton_init mem now t) evs) = AtReadFlag start tn"
  shows "\<exists>evs0 evs1. evs = evs0 @ Dev # evs1 \<and>
           kernel (run (Baton_init mem now t) evs0) = AtReadStart \<and>
           start = global_timer_ns (run (Baton_init mem now t) evs0)"
  using loop_start_origin [of "Baton_init mem now t" evs start] assms
  by (simp add: Baton_init_def)

lemma timeout_check_iteration:
  assumes "0 < t"
    and "s = run (Baton_init mem now t) evs"
    and "kernel s = AtReadFlag start tn"
    and "abort_flag (comm s) \<noteq> 1"
    and "Dev \<notin> set h1" and "Dev \<notin> set h2" and "Dev \<notin> set h3"
  shows "tn = timeout_ns_of t \<and>
         (unat t * 15625 < 2 ^ 53 \<longrightarrow> tn = t * 1000000) \<and>
         (if global_timer_ns (run s (Dev # h1)) - start > tn
          then kernel (run s (Dev # h1 @ Dev # h2 @ Dev # h3)) = Returned \<and>
               status (comm (run s (Dev # h1 @ Dev # h2 @ Dev # h3))) = TIMED_OUT \<and>
               writes s (Dev # h1 @ Dev # h2 @ Dev # h3) = [TIMED_OUT] \<and>
               sleeps s (Dev # h1 @ Dev # h2 @ Dev # h3) = []
          else kernel (run s (Dev # h1 @ Dev # h2 @ Dev # h3)) = AtReadFlag start tn \<and>
               status (comm (run s (Dev # h1 @ Dev # h2 @ Dev # h3))) = status (comm s) \<and>
               writes s (Dev # h1 @ Dev # h2 @ Dev # h3) = [] \<and>
               sleeps s (Dev # h1 @ Dev # h2 @ Dev # h3) = [1000000])"
proof -
  have tn: "tn = timeout_ns_of t"
    using locals_ok_reachable [of t mem now evs] assms(2,3) by simp
  have ex: "unat t * 15625 < 2 ^ 53 \<longrightarrow> tn = t * 1000000"
    using tn timeout_ns_of_exact by simp
  have tmo: "timeout s = t" using assms(2) by (simp add: Baton_init_def)
  define s1 where "s1 = run s (Dev # h1)"
  have k0: "kernel (step s Dev) = AtCheckTimeout start tn"
    and c0: "status_word (comm (step s Dev)) = status_word (comm s)"
    using assms(3,4) by simp_all
  have k1: "kernel s1 = AtCheckTimeout start tn"
    and c1: "status_word (comm s1) = status_word (comm s)"
    using host_only_run [OF assms(5), of "step s Dev"] k0 c0 by (simp_all add: s1_def)
  have t1: "timeout s1 = t"
    unfolding s1_def using tmo run_timeout by blast
  have w1: "writes s (Dev # h1) = []" and z1: "sleeps s (Dev # h1) = []"
    using host_only_run [OF assms(5), of "step s Dev"] assms(3) by simp_all
  define s2 where "s2 = run s1 (Dev # h2)"
  define s3 where "s3 = run s2 (Dev # h3)"
  have r: "run s (Dev # h1 @ Dev # h2 @ Dev # h3) = s3"
    using run_append [of s "Dev # h1" "Dev # h2 @ Dev # h3"]
      run_append [of s1 "Dev # h2" "Dev # h3"] by (simp add: s1_def s2_def s3_def)
  have w: "writes s (Dev # h1 @ Dev # h2 @ Dev # h3) = writes s1 (Dev # h2) @ writes s2 (Dev # h3)"
    using writes_append [of s "Dev # h1" "Dev # h2 @ Dev # h3"]
      writes_append [of s1 "Dev # h2" "Dev # h3"] w1 by (simp add: s1_def s2_def)
  have z: "sleeps s (Dev # h1 @ Dev # h2 @ Dev # h3) = sleeps s1 (Dev # h2) @ sleeps s2 (Dev # h3)"
    using sleeps_append [of s "Dev # h1" "Dev # h2 @ Dev # h3"]
      sleeps_append [of s1 "Dev # h2" "Dev # h3"] z1 by (simp add: s1_def s2_def)
  show ?thesis
  proof (cases "global_timer_ns s1 - start > tn")
    case True
    have a: "kernel (step s1 Dev) = AtWriteTimedOut"
      and b: "status_word (comm (step s1 Dev)) = status_word (comm s)"
      using True k1 c1 t1 assms(1) by simp_all
    have k2: "kernel s2 = AtWriteTimedOut"
      using host_only_run [OF assms(6), of "step s1 Dev"] a by (simp add: s2_def)
    have w2: "writes s1 (Dev # h2) = []" and z2: "sleeps s1 (Dev # h2) = []"
      using host_only_run [OF assms(6), of "step s1 Dev"] k1 by simp_all
    have a3: "kernel (step s2 Dev) = Returned"
      and b3: "status_word (comm (step s2 Dev)) = TIMED_OUT"
      using k2 by simp_all
    have "kernel s3 = Returned" and "status_word (comm s3) = TIMED_OUT"
      and "writes s2 (Dev # h3) = [TIMED_OUT]" and "sleeps s2 (Dev # h3) = []"
      using host_only_run [OF assms(7), of "step s2 Dev"] a3 b3 k2 by (simp_all add: s3_def)
    then show ?thesis using True tn ex r w z w2 z2 by (simp add: s1_def status_def)
  next
    case False
    have a: "kernel (step s1 Dev) = AtNanosleep start tn 1000000"
      and b: "status_word (comm (step s1 Dev)) = status_word (comm s)"
      using False k1 c1 t1 assms(1) by simp_all
    have k2: "kernel s2 = AtNanosleep start tn 1000000"
      and c2: "status_word (comm s2) = status_word (comm s)"
      using host_only_run [OF assms(6), of "step s1 Dev"] a b by (simp_all add: s2_def)
    have w2: "writes s1 (Dev # h2) = []" and z2: "sleeps s1 (Dev # h2) = []"
      using host_only_run [OF assms(6), of "step s1 Dev"] k1 by simp_all
    have a3: "kernel (step s2 Dev) = AtReadFlag start tn"
      and b3: "status_word (comm (step s2 Dev)) = status_word (comm s)"
      using k2 c2 by simp_all
    have "kernel s3 = AtReadFlag start tn" and "status_word (comm s3) = status_word (comm s)"
      and "writes s2 (Dev # h3) = []" and "sleeps s2 (Dev # h3) = [1000000]"
      using host_only_run [OF assms(7), of "step s2 Dev"] a3 b3 k2 by (simp_all add: s3_def)
    then show ?thesis using False tn ex r w z w2 z2 by (simp add: s1_def status_def)
  qed
qed



section \<open>The terminal transitions\<close>

lemma dev_keeps_flag: "abort_flag (comm (step s Dev)) = abort_flag (comm s)"
  by (cases "kernel s") (simp_all)

lemma no_timeout_step:
  assumes "timeout s = 0" and "kernel s \<noteq> AtWriteTimedOut"
  shows "kernel (step s e) \<noteq> AtWriteTimedOut \<and> TIMED_OUT \<notin> set (writes s [e])"
proof (cases e)
  case Dev
  then show ?thesis using assms terminal_neq by (cases "kernel s") (auto split: if_splits)
next
  case (Tick d)
  then show ?thesis using assms by simp
next
  case HostAbort
  then show ?thesis using assms by (simp add: abort_def)
next
  case HostStatus
  then show ?thesis using assms by simp
qed

lemma no_timeout_run:
  "timeout s = 0 \<Longrightarrow> kernel s \<noteq> AtWriteTimedOut \<Longrightarrow> TIMED_OUT \<notin> set (writes s evs)"
proof (induction evs arbitrary: s)
  case Nil
  then show ?case by simp
next
  case (Cons e evs)
  have a: "kernel (step s e) \<noteq> AtWriteTimedOut" and b: "TIMED_OUT \<notin> set (writes s [e])"
    using no_timeout_step [OF Cons.prems, of e] by blast+
  have "TIMED_OUT \<notin> set (writes (step s e) evs)"
    using Cons.IH [of "step s e"] a Cons.prems(1) by simp
  then show ?case using b by simp
qed

lemma never_timed_out_without_timeout:
  "TIMED_OUT \<notin> set (writes (Baton_init mem now 0) evs)"
  using no_timeout_run [of "Baton_init mem now 0" evs] by (simp add: Baton_init_def)

lemma no_abort_step:
  assumes "abort_flag (comm s) \<noteq> 1" and "kernel s \<noteq> AtWriteAborted" and "e \<noteq> HostAbort"
  shows "abort_flag (comm (step s e)) \<noteq> 1 \<and> kernel (step s e) \<noteq> AtWriteAborted \<and>
     ABORTED \<notin> set (writes s [e])"
proof (cases e)
  case Dev
  then show ?thesis using assms terminal_neq by (cases "kernel s") (auto split: if_splits)
next
  case (Tick d)
  then show ?thesis using assms by simp
next
  case HostAbort
  then show ?thesis using assms by (simp add: abort_def)
next
  case HostStatus
  then show ?thesis using assms by simp
qed

lemma no_abort_run:
  "abort_flag (comm s) \<noteq> 1 \<Longrightarrow> kernel s \<noteq> AtWriteAborted \<Longrightarrow> HostAbort \<notin> set evs \<Longrightarrow>
     ABORTED \<notin> set (writes s evs)"
proof (induction evs arbitrary: s)
  case Nil
  then show ?case by simp
next
  case (Cons e evs)
  have e: "e \<noteq> HostAbort" and r: "HostAbort \<notin> set evs" using Cons.prems(3) by auto
  have a: "abort_flag (comm (step s e)) \<noteq> 1" and b: "kernel (step s e) \<noteq> AtWriteAborted"
    and c: "ABORTED \<notin> set (writes s [e])"
    using no_abort_step [OF Cons.prems(1,2) e] by blast+
  have "ABORTED \<notin> set (writes (step s e) evs)"
    using Cons.IH [OF a b r] .
  then show ?case using c by simp
qed

lemma aborted_needs_abort_call:
  "abort_flag mem \<noteq> 1 \<Longrightarrow> ABORTED \<in> set (writes (Baton_init mem now t) evs) \<Longrightarrow>
     HostAbort \<in> set evs"
  using no_abort_run [of "Baton_init mem now t" evs] by (auto simp: Baton_init_def)

text \<open>
  C4. The specification: with timeout 0 the loop never stores TIMED_OUT, and its only terminal
  transition is to ABORTED, after \<^verbatim>\<open>abort()\<close> has set the abort flag. The first half
  holds for every buffer (\<open>never_timed_out_without_timeout\<close>), and so does the second
  for a buffer whose first word is not 1 at construction (\<open>aborted_needs_abort_call\<close>).
  The constructor does not write the first word, though: with storage that comes back
  holding 1 there, the kernel stores ABORTED and returns in a run in which
  \<^verbatim>\<open>abort()\<close> is never called.
\<close>

theorem aborted_without_abort_call_uninitialised:
  "HostAbort \<notin> set [Dev, Dev, Dev, Dev] \<and>
   kernel (run (Baton_init \<lparr>abort_flag = 1, status_word = 0\<rparr> 0 0) [Dev, Dev, Dev, Dev]) = Returned \<and>
   status (comm (run (Baton_init \<lparr>abort_flag = 1, status_word = 0\<rparr> 0 0) [Dev, Dev, Dev, Dev])) = ABORTED \<and>
   writes (Baton_init \<lparr>abort_flag = 1, status_word = 0\<rparr> 0 0) [Dev, Dev, Dev, Dev] = [RUNNING, ABORTED]"
  by (simp add: Baton_init_def global_timer_ns_def status_def)

lemma writes_shape:
  "writes (Baton_init mem now t) evs \<in> {[], [RUNNING], [RUNNING, TIMED_OUT], [RUNNING, ABORTED]}"
  using trace_ok_reachable [of mem now t evs]
  by (cases "kernel (run (Baton_init mem now t) evs)") auto

lemma status_path_zeroed:
  "status (comm (run (Baton_init \<lparr>abort_flag = 0, status_word = 0\<rparr> now t) evs))
     \<in> {UNKNOWN, RUNNING, TIMED_OUT, ABORTED}"
  using trace_ok_reachable [of "\<lparr>abort_flag = 0, status_word = 0\<rparr>" now t evs]
  by (cases "kernel (run (Baton_init \<lparr>abort_flag = 0, status_word = 0\<rparr> now t) evs)")
     (auto simp: status_def UNKNOWN_def)

lemma terminal_status_sticks:
  assumes "status_word mem \<noteq> TIMED_OUT" and "status_word mem \<noteq> ABORTED"
    and "s = run (Baton_init mem now t) evs"
    and "status (comm s) = TIMED_OUT \<or> status (comm s) = ABORTED"
  shows "set (polls s rest) \<subseteq> {status (comm s)}"
proof -
  have "kernel s = Returned"
    using terminal_word_written [OF assms(1,2,3)] assms(4) by (simp add: status_def)
  then show ?thesis by (rule returned_polls)
qed

text \<open>
  C5. The specification: the status word goes UNKNOWN, RUNNING, then one terminal value, and
  once \<^verbatim>\<open>status()\<close> has returned a terminal value every later call returns the same.
  The kernel's own stores have that shape (\<open>writes_shape\<close>), and all of it holds for a
  buffer whose second word is not terminal at construction (\<open>status_path_zeroed\<close>,
  \<open>terminal_status_sticks\<close>). The constructor does not write the second word, though:
  with storage that comes back holding 2 there, \<^verbatim>\<open>status()\<close> returns TIMED_OUT
  before the kernel has begun and RUNNING after its first step.
\<close>

theorem status_regresses_uninitialised:
  "polls (Baton_init \<lparr>abort_flag = 0, status_word = 2\<rparr> 0 0) [HostStatus, Dev, HostStatus]
     = [TIMED_OUT, RUNNING]"
  by (simp add: Baton_init_def status_def TIMED_OUT_def)

section \<open>Abort\<close>

lemma abort_abort: "abort (abort c) = abort c"
  by (simp add: abort_def)

lemma abort_after_aborts: "abort ((abort ^^ N) c) = abort c"
  by (induction N) (simp_all add: abort_abort)

lemma abort_funpow: "0 < N \<Longrightarrow> (abort ^^ N) c = abort c"
  using abort_after_aborts [of "N - 1" c] by (cases N) simp_all

lemma abort_again: "abort_flag (comm s) = 1 \<Longrightarrow> step s HostAbort = s"
  by (simp add: abort_def)

lemma flag_stays: "abort_flag (comm s) = 1 \<Longrightarrow> abort_flag (comm (step s e)) = 1"
  by (cases e) (simp_all add: dev_keeps_flag abort_def del: step.simps(1))

lemma drop_aborts:
  "abort_flag (comm s) = 1 \<Longrightarrow>
     run s (filter (\<lambda>e. e \<noteq> HostAbort) evs) = run s evs \<and>
     polls s (filter (\<lambda>e. e \<noteq> HostAbort) evs) = polls s evs"
proof (induction evs arbitrary: s)
  case Nil
  then show ?case by simp
next
  case (Cons e evs)
  show ?case
  proof (cases "e = HostAbort")
    case True
    then have "step s e = s" using Cons.prems abort_again by simp
    then show ?thesis using True Cons.IH [OF Cons.prems] by simp
  next
    case False
    have "abort_flag (comm (step s e)) = 1" using Cons.prems by (rule flag_stays)
    from Cons.IH [OF this] show ?thesis using False by simp
  qed
qed

lemma flag_after_abort: "abort_flag (comm (step s HostAbort)) = 1"
  by (simp add: abort_def)

lemma returned_polls_eq:
  "kernel s = Returned \<Longrightarrow> kernel s' = Returned \<Longrightarrow>
     status_word (comm s) = status_word (comm s') \<Longrightarrow> polls s evs = polls s' evs"
proof (induction evs arbitrary: s s')
  case Nil
  then show ?case by simp
next
  case (Cons e evs)
  have "kernel (step s e) = Returned" and "kernel (step s' e) = Returned"
    and "status_word (comm (step s e)) = status_word (comm (step s' e))"
    using Cons.prems returned_step [of s e] returned_step [of s' e] by simp_all
  moreover have "polled s e = polled s' e"
    using Cons.prems(3) by (cases e) (simp_all add: status_def)
  ultimately show ?case using Cons.IH [of "step s e" "step s' e"] by simp
qed

text \<open>
  C6. \<^verbatim>\<open>abort()\<close> stores 1 into the abort flag and nothing else. \<open>N > 1\<close> calls in a
  row leave the buffer, and the whole system after any further events, as one call
  does, with the same \<^verbatim>\<open>status()\<close> results; so do further calls anywhere later in the
  run. After the kernel has returned, a call changes no \<^verbatim>\<open>status()\<close> result.
\<close>

theorem abort_idempotent:
  "abort c = c\<lparr>abort_flag := 1\<rparr> \<and>
   (1 < N \<longrightarrow>
      (abort ^^ N) c = abort c \<and>
      run s (replicate N HostAbort @ evs) = run s (HostAbort # evs) \<and>
      polls s (replicate N HostAbort @ evs) = polls s (HostAbort # evs)) \<and>
   run s (HostAbort # evs) = run s (HostAbort # filter (\<lambda>e. e \<noteq> HostAbort) evs) \<and>
   polls s (HostAbort # evs) = polls s (HostAbort # filter (\<lambda>e. e \<noteq> HostAbort) evs) \<and>
   (kernel s = Returned \<longrightarrow>
      polls (step s HostAbort) evs = polls s evs \<and>
      status (comm (run (step s HostAbort) evs)) = status (comm s) \<and>
      status (comm (run s evs)) = status (comm s))"
proof -
  let ?s1 = "step s HostAbort"
  have f: "abort_flag (comm ?s1) = 1" by (rule flag_after_abort)
  have d: "run ?s1 (filter (\<lambda>e. e \<noteq> HostAbort) xs) = run ?s1 xs \<and>
           polls ?s1 (filter (\<lambda>e. e \<noteq> HostAbort) xs) = polls ?s1 xs" for xs
    using drop_aborts [OF f] .
  have rep: "filter (\<lambda>e. e \<noteq> HostAbort) (replicate n HostAbort @ evs)
               = filter (\<lambda>e. e \<noteq> HostAbort) evs" for n
    by (induction n) simp_all
  have many: "run s (replicate N HostAbort @ evs) = run s (HostAbort # evs) \<and>
              polls s (replicate N HostAbort @ evs) = polls s (HostAbort # evs)" if "1 < N"
  proof -
    have "0 < N" using that by simp
    then obtain n where N: "N = Suc n" using gr0_implies_Suc by blast
    have "run ?s1 (replicate n HostAbort @ evs) = run ?s1 evs"
      using d [of "replicate n HostAbort @ evs"] d [of evs] rep [of n] by simp
    moreover have "polls ?s1 (replicate n HostAbort @ evs) = polls ?s1 evs"
      using d [of "replicate n HostAbort @ evs"] d [of evs] rep [of n] by simp
    ultimately show ?thesis using N by simp
  qed
  have later: "run s (HostAbort # evs) = run s (HostAbort # filter (\<lambda>e. e \<noteq> HostAbort) evs) \<and>
               polls s (HostAbort # evs) = polls s (HostAbort # filter (\<lambda>e. e \<noteq> HostAbort) evs)"
    using d [of evs] by simp
  have fin: "polls ?s1 evs = polls s evs \<and>
              status (comm (run ?s1 evs)) = status (comm s) \<and>
              status (comm (run s evs)) = status (comm s)" if k: "kernel s = Returned"
  proof -
    have k1: "kernel ?s1 = Returned" and w1: "status_word (comm ?s1) = status_word (comm s)"
      using returned_step [OF k, of HostAbort] by simp_all
    have "polls ?s1 evs = polls s evs" using returned_polls_eq [OF k1 k w1] .
    moreover have "status_word (comm (run ?s1 evs)) = status_word (comm s)"
      using returned_run [OF k1, of evs] w1 by simp
    moreover have "status_word (comm (run s evs)) = status_word (comm s)"
      using returned_run [OF k, of evs] by simp
    ultimately show ?thesis by (simp add: status_def)
  qed
  have funp: "(abort ^^ N) c = abort c" if "1 < N"
    using that abort_funpow [of N c] by simp
  show ?thesis using many later fin funp by (simp add: abort_def)
qed

theorem abort_idempotent_witness:
  "(1 :: nat) < 3 \<and>
   (abort ^^ 3) \<lparr>abort_flag = 0, status_word = 1\<rparr> = \<lparr>abort_flag = 1, status_word = 1\<rparr> \<and>
   polls \<lparr>comm = \<lparr>abort_flag = 0, status_word = 3\<rparr>, timeout = 0, kernel = Returned, timer = 0\<rparr>
      (replicate 3 HostAbort @ [HostStatus, HostAbort, HostStatus]) =
   polls \<lparr>comm = \<lparr>abort_flag = 0, status_word = 3\<rparr>, timeout = 0, kernel = Returned, timer = 0\<rparr>
      (HostAbort # [HostStatus, HostAbort, HostStatus]) \<and>
   kernel \<lparr>comm = \<lparr>abort_flag = 0, status_word = 3\<rparr>, timeout = 0, kernel = Returned, timer = 0\<rparr>
      = Returned \<and>
   polls (step \<lparr>comm = \<lparr>abort_flag = 0, status_word = 3\<rparr>, timeout = 0, kernel = Returned,
                 timer = 0\<rparr> HostAbort) [HostStatus, HostAbort, HostStatus] =
   polls \<lparr>comm = \<lparr>abort_flag = 0, status_word = 3\<rparr>, timeout = 0, kernel = Returned, timer = 0\<rparr>
      [HostStatus, HostAbort, HostStatus]"
  using abort_idempotent
      [of "\<lparr>abort_flag = 0, status_word = 1\<rparr>" 3
          "\<lparr>comm = \<lparr>abort_flag = 0, status_word = 3\<rparr>, timeout = 0, kernel = Returned,
            timer = 0\<rparr>" "[HostStatus, HostAbort, HostStatus]"]
  by (simp add: abort_def)

text \<open>
  C7, as stated: an abort issued before the timeout has elapsed is followed by ABORTED,
  never by TIMED_OUT. The kernel reads the flag and the timer in two separate accesses.
  Here the timeout is 1 ms and the loop started at time 0; the second iteration reads
  the flag (still 0) at 999990 ns, \<^verbatim>\<open>abort()\<close> is called at 999995 ns, before the
  timeout has elapsed, and the iteration reads the timer at 1000005 ns: it stores
  TIMED_OUT, and that is what \<^verbatim>\<open>status()\<close> returns from then on.
\<close>

theorem abort_before_timeout_counterexample:
  "kernel (run (Baton_init \<lparr>abort_flag = 0, status_word = 0\<rparr> 0 1)
      [Dev, Dev, Dev, Dev, Tick 999990, Dev, Dev, Tick 5]) = AtCheckTimeout 0 1000000 \<and>
   timer (run (Baton_init \<lparr>abort_flag = 0, status_word = 0\<rparr> 0 1)
      [Dev, Dev, Dev, Dev, Tick 999990, Dev, Dev, Tick 5]) = 999995 \<and>
   polls (Baton_init \<lparr>abort_flag = 0, status_word = 0\<rparr> 0 1)
      [Dev, Dev, Dev, Dev, Tick 999990, Dev, Dev, Tick 5,
       HostAbort, Tick 10, Dev, Dev, HostStatus, Tick 1000000, Dev, HostStatus]
     = [TIMED_OUT, TIMED_OUT]"
  by (simp add: Baton_init_def global_timer_ns_def timeout_ns_of_1 abort_def status_def)

lemma steps_left_0: "steps_left pc = 0 \<longleftrightarrow> pc = Returned"
  by (cases pc) simp_all

lemma steps_left_le: "steps_left pc \<le> 4"
  by (cases pc) simp_all

lemma abort_pending_step:
  assumes "abort_pending s"
  shows "abort_pending (step s e) \<and>
         steps_left (kernel (step s e)) = steps_left (kernel s) - (if e = Dev then 1 else 0) \<and>
         TIMED_OUT \<notin> set (stored s e) \<and>
         length (slept s e) + sleeps_left (kernel (step s e)) \<le> sleeps_left (kernel s)"
proof (cases e)
  case Dev
  then show ?thesis using assms terminal_neq
    by (cases "kernel s") (auto simp: abort_pending_def split: if_splits)
next
  case (Tick d)
  then show ?thesis using assms
    by (cases "kernel s") (simp_all add: abort_pending_def)
next
  case HostAbort
  then show ?thesis using assms
    by (cases "kernel s") (simp_all add: abort_pending_def abort_def)
next
  case HostStatus
  then show ?thesis using assms
    by (cases "kernel s") (simp_all add: abort_pending_def)
qed

lemma abort_pending_run:
  "abort_pending s \<Longrightarrow>
     abort_pending (run s evs) \<and>
     steps_left (kernel (run s evs)) = steps_left (kernel s) - count_list evs Dev \<and>
     TIMED_OUT \<notin> set (writes s evs) \<and>
     length (sleeps s evs) + sleeps_left (kernel (run s evs)) \<le> sleeps_left (kernel s)"
proof (induction evs arbitrary: s)
  case Nil
  then show ?case by simp
next
  case (Cons e evs)
  have p: "abort_pending (step s e)"
    and l: "steps_left (kernel (step s e)) = steps_left (kernel s) - (if e = Dev then 1 else 0)"
    and w: "TIMED_OUT \<notin> set (stored s e)"
    and z: "length (slept s e) + sleeps_left (kernel (step s e)) \<le> sleeps_left (kernel s)"
    using abort_pending_step [OF Cons.prems, of e] by blast+
  have ih: "abort_pending (run (step s e) evs)"
    "steps_left (kernel (run (step s e) evs)) = steps_left (kernel (step s e)) - count_list evs Dev"
    "TIMED_OUT \<notin> set (writes (step s e) evs)"
    "length (sleeps (step s e) evs) + sleeps_left (kernel (run (step s e) evs))
       \<le> sleeps_left (kernel (step s e))"
    using Cons.IH [OF p] by blast+
  have "steps_left (kernel (run s (e # evs))) = steps_left (kernel s) - count_list (e # evs) Dev"
    using ih(2) l by simp
  moreover have "length (sleeps s (e # evs)) + sleeps_left (kernel (run s (e # evs)))
       \<le> sleeps_left (kernel s)"
    using ih(4) z by simp
  ultimately show ?case using ih(1,3) w by simp
qed

lemma sleeps_left_le: "sleeps_left pc \<le> 1"
  by (cases pc) simp_all

lemma check_fires_host:
  "Dev \<notin> set h \<Longrightarrow> check_fires s (h @ Dev # r) = fires (run s h)"
proof (induction h arbitrary: s)
  case Nil
  then show ?case by simp
next
  case (Cons e h)
  then have "e \<noteq> Dev" and "Dev \<notin> set h" by auto
  then show ?case using Cons.IH [of "step s e"] by (cases e) simp_all
qed

lemma flag_stays_run: "abort_flag (comm s) = 1 \<Longrightarrow> abort_flag (comm (run s evs)) = 1"
proof (induction evs arbitrary: s)
  case Nil
  then show ?case by simp
next
  case (Cons e evs)
  have "abort_flag (comm (step s e)) = 1" using Cons.prems by (rule flag_stays)
  from Cons.IH [OF this] show ?case by simp
qed

lemma abort_pending_no_fire: "abort_pending s \<Longrightarrow> \<not> check_fires s evs"
proof (induction evs arbitrary: s)
  case Nil
  then show ?case by simp
next
  case (Cons e evs)
  show ?case
  proof (cases e)
    case Dev
    have "\<not> fires s" using Cons.prems
      by (cases "kernel s") (simp_all add: fires_def abort_pending_def)
    then show ?thesis using Dev by simp
  next
    case (Tick d)
    have "abort_pending (step s e)" using abort_pending_step [OF Cons.prems, of e] by blast
    from Cons.IH [OF this] show ?thesis using Tick by simp
  next
    case HostAbort
    have "abort_pending (step s e)" using abort_pending_step [OF Cons.prems, of e] by blast
    from Cons.IH [OF this] show ?thesis using HostAbort by simp
  next
    case HostStatus
    have "abort_pending (step s e)" using abort_pending_step [OF Cons.prems, of e] by blast
    from Cons.IH [OF this] show ?thesis using HostStatus by simp
  qed
qed

lemma no_fire_without_timeout: "timeout s = 0 \<Longrightarrow> \<not> check_fires s evs"
proof (induction evs arbitrary: s)
  case Nil
  then show ?case by simp
next
  case (Cons e evs)
  have f: "\<not> fires s" using Cons.prems
    by (cases "kernel s") (simp_all add: fires_def)
  have "\<not> check_fires (step s e) evs" using Cons.IH [of "step s e"] Cons.prems by simp
  then show ?case using f by (cases e) simp_all
qed

lemma abort_pending_returns:
  assumes "abort_pending s" and "steps_left (kernel s) \<le> count_list evs Dev"
  shows "kernel (run s evs) = Returned \<and>
         status_word (comm (run s evs)) = ABORTED \<and>
         TIMED_OUT \<notin> set (writes s evs) \<and>
         length (sleeps s evs) \<le> sleeps_left (kernel s)"
proof -
  have p: "abort_pending (run s evs)"
    and l: "steps_left (kernel (run s evs)) = steps_left (kernel s) - count_list evs Dev"
    and w: "TIMED_OUT \<notin> set (writes s evs)"
    and z: "length (sleeps s evs) + sleeps_left (kernel (run s evs)) \<le> sleeps_left (kernel s)"
    using abort_pending_run [OF assms(1), of evs] by blast+
  have "steps_left (kernel (run s evs)) = 0"
    using l assms(2) by simp
  then have k: "kernel (run s evs) = Returned" by (simp add: steps_left_0)
  then have a: "status_word (comm (run s evs)) = ABORTED"
    using p by (simp add: abort_pending_def)
  have "length (sleeps s evs) \<le> sleeps_left (kernel s)"
    using z by simp
  then show ?thesis using k a w by simp
qed

lemma timed_out_write:
  "kernel s = AtWriteTimedOut \<Longrightarrow> 1 \<le> count_list evs Dev \<Longrightarrow>
     kernel (run s evs) = Returned \<and> status_word (comm (run s evs)) = TIMED_OUT \<and>
     sleeps s evs = []"
proof (induction evs arbitrary: s)
  case Nil
  then show ?case by simp
next
  case (Cons e evs)
  show ?case
  proof (cases "e = Dev")
    case True
    have k: "kernel (step s Dev) = Returned"
      and w: "status_word (comm (step s Dev)) = TIMED_OUT"
      and z: "slept s Dev = []"
      using Cons.prems(1) by simp_all
    show ?thesis using returned_run [OF k, of evs] w z True by simp
  next
    case False
    have k: "kernel (step s e) = AtWriteTimedOut"
      using host_step [OF False, of s] Cons.prems(1) by simp
    have c: "1 \<le> count_list evs Dev" using Cons.prems(2) False by simp
    show ?thesis using Cons.IH [OF k c] False by simp
  qed
qed

text \<open>
  C7, amended: for every timeout, once \<^verbatim>\<open>abort()\<close> has set the flag (the kernel not
  having decided on a timeout or returned with one already), the kernel returns within
  four more of its steps, with at most one sleep among them. It stores ABORTED, never
  TIMED_OUT, and every \<^verbatim>\<open>status()\<close> call after that returns ABORTED, in all cases but
  one: the abort fell between an iteration's flag read and its timeout check, and that
  check then finds the timeout exceeded; then the kernel stores TIMED_OUT. With
  timeout 0 that case does not arise.
\<close>

theorem abort_observed:
  assumes "abort_flag (comm s) = 1"
    and "kernel s \<noteq> AtWriteTimedOut"
    and "kernel s = Returned \<longrightarrow> status (comm s) = ABORTED"
    and "4 \<le> count_list evs Dev"
  shows "kernel (run s evs) = Returned \<and>
         length (sleeps s evs) \<le> 1 \<and>
         (timeout s = 0 \<longrightarrow> \<not> check_fires s evs) \<and>
         (if check_fires s evs
          then status (comm (run s evs)) = TIMED_OUT \<and>
               set (polls (run s evs) rest) \<subseteq> {TIMED_OUT}
          else status (comm (run s evs)) = ABORTED \<and>
               TIMED_OUT \<notin> set (writes s evs) \<and>
               set (polls (run s evs) rest) \<subseteq> {ABORTED})"
proof (cases "abort_pending s")
  case True
  have nf: "\<not> check_fires s evs" using True by (rule abort_pending_no_fire)
  have "steps_left (kernel s) \<le> count_list evs Dev"
    using assms(4) steps_left_le [of "kernel s"] by simp
  from abort_pending_returns [OF True this]
  have k: "kernel (run s evs) = Returned"
    and a: "status_word (comm (run s evs)) = ABORTED"
    and w: "TIMED_OUT \<notin> set (writes s evs)"
    and z: "length (sleeps s evs) \<le> sleeps_left (kernel s)"
    by blast+
  have z1: "length (sleeps s evs) \<le> 1" using z sleeps_left_le [of "kernel s"] by simp
  have "set (polls (run s evs) rest) \<subseteq> {ABORTED}"
    using returned_polls [OF k, of rest] a by (simp add: status_def)
  then show ?thesis using nf k a w z1 by (simp add: status_def)
next
  case False
  then obtain start tn where pc: "kernel s = AtCheckTimeout start tn" and t: "timeout s \<noteq> 0"
    using assms(1,2,3) by (cases "kernel s") (auto simp: abort_pending_def status_def)
  have "Dev \<in> set evs" using assms(4) count_list_0_iff [of evs Dev] by auto
  then obtain h r where evs: "evs = h @ Dev # r" and h: "Dev \<notin> set h"
    using split_list_first [of Dev evs] by blast
  have "count_list h Dev = 0" using h by (simp add: count_list_0_iff)
  then have cr: "3 \<le> count_list r Dev" using assms(4) evs by simp
  define s1 where "s1 = run s h"
  define s2 where "s2 = step s1 Dev"
  have k1: "kernel s1 = AtCheckTimeout start tn"
    and wh: "writes s h = []" and zh: "sleeps s h = []"
    using host_only_run [OF h, of s] pc by (simp_all add: s1_def)
  have f1: "abort_flag (comm s1) = 1" unfolding s1_def using assms(1) by (rule flag_stays_run)
  have t1: "timeout s1 = timeout s" by (simp add: s1_def)
  have f2: "abort_flag (comm s2) = 1" unfolding s2_def using f1 by (rule flag_stays)
  have cf: "check_fires s evs = fires s1" using check_fires_host [OF h] evs by (simp add: s1_def)
  have rn: "run s evs = run s2 r" by (simp add: evs run_append s1_def s2_def)
  have wr: "writes s evs = writes s2 r"
    using wh k1 by (simp add: evs writes_append s1_def s2_def)
  have zr: "sleeps s evs = sleeps s2 r"
    using zh k1 by (simp add: evs sleeps_append s1_def s2_def)
  have nz: "timeout s = 0 \<longrightarrow> \<not> check_fires s evs" using t by simp
  show ?thesis
  proof (cases "fires s1")
    case True
    have "kernel s2 = AtWriteTimedOut"
      using True k1 by (simp add: s2_def fires_def)
    moreover have "1 \<le> count_list r Dev" using cr by simp
    ultimately have k: "kernel (run s2 r) = Returned"
      and a: "status_word (comm (run s2 r)) = TIMED_OUT" and z: "sleeps s2 r = []"
      using timed_out_write [of s2 r] by blast+
    have "set (polls (run s2 r) rest) \<subseteq> {TIMED_OUT}"
      using returned_polls [OF k, of rest] a by (simp add: status_def)
    then show ?thesis using True cf rn zr k a z nz by (simp add: status_def)
  next
    case False
    have k2: "kernel s2 = AtNanosleep start tn 1000000"
      using False k1 t1 t by (auto simp: s2_def fires_def split: if_splits)
    have p2: "abort_pending s2" using k2 f2 by (simp add: abort_pending_def)
    have "steps_left (kernel s2) \<le> count_list r Dev" using k2 cr by simp
    from abort_pending_returns [OF p2 this]
    have k: "kernel (run s2 r) = Returned"
      and a: "status_word (comm (run s2 r)) = ABORTED"
      and w: "TIMED_OUT \<notin> set (writes s2 r)"
      and z: "length (sleeps s2 r) \<le> sleeps_left (kernel s2)"
      by blast+
    have z1: "length (sleeps s2 r) \<le> 1" using z k2 by simp
    have "set (polls (run s2 r) rest) \<subseteq> {ABORTED}"
      using returned_polls [OF k, of rest] a by (simp add: status_def)
    then show ?thesis using False cf rn wr zr k a w z1 nz by (simp add: status_def)
  qed
qed

theorem abort_observed_witness:
  "abort_flag (comm (run (Baton_init \<lparr>abort_flag = 0, status_word = 0\<rparr> 0 1)
      [Dev, Dev, Dev, Tick 500000, HostAbort])) = 1 \<and>
   kernel (run (Baton_init \<lparr>abort_flag = 0, status_word = 0\<rparr> 0 1)
      [Dev, Dev, Dev, Tick 500000, HostAbort]) = AtCheckTimeout 0 1000000 \<and>
   4 \<le> count_list [Dev, Tick 1000000, Dev, Dev, Dev, HostStatus] Dev \<and>
   \<not> check_fires (run (Baton_init \<lparr>abort_flag = 0, status_word = 0\<rparr> 0 1)
      [Dev, Dev, Dev, Tick 500000, HostAbort]) [Dev, Tick 1000000, Dev, Dev, Dev, HostStatus] \<and>
   status (comm (run (run (Baton_init \<lparr>abort_flag = 0, status_word = 0\<rparr> 0 1)
      [Dev, Dev, Dev, Tick 500000, HostAbort])
      [Dev, Tick 1000000, Dev, Dev, Dev, HostStatus])) = ABORTED"
proof -
  define s where "s = run (Baton_init \<lparr>abort_flag = 0, status_word = 0\<rparr> 0 1)
      [Dev, Dev, Dev, Tick 500000, HostAbort]"
  define evs where "evs = [Dev, Tick 1000000, Dev, Dev, Dev, HostStatus]"
  have f: "abort_flag (comm s) = 1"
    by (simp add: s_def Baton_init_def global_timer_ns_def timeout_ns_of_1 abort_def)
  have k: "kernel s = AtCheckTimeout 0 1000000"
    by (simp add: s_def Baton_init_def global_timer_ns_def timeout_ns_of_1 abort_def)
  have k1: "kernel s \<noteq> AtWriteTimedOut" and k2: "kernel s = Returned \<longrightarrow> status (comm s) = ABORTED"
    using k by simp_all
  have c: "4 \<le> count_list evs Dev" by (simp add: evs_def)
  have tm: "timer s = 500000" and tt: "timeout s = 1"
    by (simp_all add: s_def Baton_init_def global_timer_ns_def abort_def)
  have nf: "\<not> check_fires s evs"
    using k tm tt by (simp add: evs_def fires_def global_timer_ns_def)
  have "status (comm (run s evs)) = ABORTED"
    using abort_observed [OF f k1 k2 c, of "[]"] nf by simp
  then show ?thesis using f k c nf unfolding s_def evs_def by blast
qed

section \<open>Creation through the registry\<close>

lemma Create_unregistered: "reg key = None \<Longrightarrow> Create reg key t = Inr None"
  by (simp add: Create_def)

lemma Create_result:
  "Create reg key t = Inr (Some b) \<Longrightarrow> \<exists>creator. reg key = Some creator \<and> creator t = Inr b"
  by (auto simp: Create_def split: option.splits sum.splits)

lemma Baton_ctor_result:
  "Baton_ctor alloc launched now t = Inr b \<Longrightarrow>
     launched \<and> (\<exists>mem. alloc = Some mem \<and> b = Baton_init mem now t)"
  by (auto simp: Baton_ctor_def split: option.splits if_splits)

text \<open>
  C8. Creation is all or nothing. \<^verbatim>\<open>Create\<close> for an unregistered name yields the null
  pointer, which \<^verbatim>\<open>baton\<close> turns into the error "Failed to create baton"; \<^verbatim>\<open>baton\<close>
  never returns a null pointer; a Baton it returns is the result of a successful run of
  the registered constructor, and for the registered \<^verbatim>\<open>detail::Baton\<close> that is a Baton
  with its buffer allocated, its timeout stored and its kernel launched; a failed
  allocation or launch surfaces as an error.
\<close>

theorem baton_all_or_nothing:
  "(reg ''CUDA'' = None \<longrightarrow>
      Create reg ''CUDA'' t = Inr None \<and>
      baton reg t = Inl (CheckFailed ''Failed to create baton'')) \<and>
   baton reg t \<noteq> Inr None \<and>
   (\<forall>b. baton reg t = Inr (Some b) \<longrightarrow>
      (\<exists>creator. reg ''CUDA'' = Some creator \<and> creator t = Inr b)) \<and>
   (\<forall>b. baton (Register reg ''CUDA'' (Baton_ctor alloc launched now)) t = Inr (Some b) \<longrightarrow>
      launched \<and> (\<exists>mem. alloc = Some mem \<and> b = Baton_init mem now t)) \<and>
   (alloc = None \<or> \<not> launched \<longrightarrow>
      (\<exists>e. baton (Register reg ''CUDA'' (Baton_ctor alloc launched now)) t = Inl e))"
proof -
  have a: "reg ''CUDA'' = None \<longrightarrow>
      Create reg ''CUDA'' t = Inr None \<and>
      baton reg t = Inl (CheckFailed ''Failed to create baton'')"
    by (simp add: baton_def Create_def)
  have b: "baton reg t \<noteq> Inr None"
    by (simp add: baton_def split: sum.splits)
  have c: "\<exists>creator. reg ''CUDA'' = Some creator \<and> creator t = Inr b"
    if "baton reg t = Inr (Some b)" for b
  proof -
    have "Create reg ''CUDA'' t = Inr (Some b)"
      using that by (auto simp: baton_def split: sum.splits if_splits)
    then show ?thesis by (rule Create_result)
  qed
  have d: "launched \<and> (\<exists>mem. alloc = Some mem \<and> b = Baton_init mem now t)"
    if "baton (Register reg ''CUDA'' (Baton_ctor alloc launched now)) t = Inr (Some b)" for b
  proof -
    have "Create (Register reg ''CUDA'' (Baton_ctor alloc launched now)) ''CUDA'' t = Inr (Some b)"
      using that by (auto simp: baton_def split: sum.splits if_splits)
    then have "Baton_ctor alloc launched now t = Inr b"
      by (auto simp: Create_def Register_def split: sum.splits)
    then show ?thesis by (rule Baton_ctor_result)
  qed
  have e: "\<exists>e. baton (Register reg ''CUDA'' (Baton_ctor alloc launched now)) t = Inl e"
    if "alloc = None \<or> \<not> launched"
    using that
    by (auto simp: baton_def Create_def Register_def Baton_ctor_def split: option.splits)
  show ?thesis using a b c d e by blast
qed

theorem baton_all_or_nothing_witness:
  "baton Map.empty 5 = Inl (CheckFailed ''Failed to create baton'') \<and>
   baton (Register Map.empty ''CUDA''
           (Baton_ctor (Some \<lparr>abort_flag = 0, status_word = 0\<rparr>) True 0)) 5
     = Inr (Some (Baton_init \<lparr>abort_flag = 0, status_word = 0\<rparr> 0 5)) \<and>
   (\<exists>e. baton (Register Map.empty ''CUDA'' (Baton_ctor None True 0)) 5 = Inl e)"
proof -
  have r: "baton (Register Map.empty ''CUDA''
           (Baton_ctor (Some \<lparr>abort_flag = 0, status_word = 0\<rparr>) True 0)) 5
     = Inr (Some (Baton_init \<lparr>abort_flag = 0, status_word = 0\<rparr> 0 5))"
    by (simp add: baton_def Create_def Register_def Baton_ctor_def)
  have n: "(Map.empty :: BatonRegistry) ''CUDA'' = None" by simp
  show ?thesis
    using baton_all_or_nothing [of Map.empty 5 None True 0] r n by blast
qed

section \<open>The status read\<close>

text \<open>
  C9, as stated: with the device unreachable, \<^verbatim>\<open>status()\<close> yields a distinct fault
  outcome. There is none: in a run in which the kernel is never executed, however much
  time passes, \<^verbatim>\<open>status()\<close> returns UNKNOWN, the answer it also gives while a healthy
  kernel is merely queued.
\<close>

theorem no_fault_outcome_counterexample:
  "Dev \<notin> set [Tick 1000000000, HostStatus, Tick 1000000000, HostStatus] \<and>
   polls (Baton_init \<lparr>abort_flag = 0, status_word = 0\<rparr> 0 0)
     [Tick 1000000000, HostStatus, Tick 1000000000, HostStatus] = [UNKNOWN, UNKNOWN] \<and>
   polls (Baton_init \<lparr>abort_flag = 0, status_word = 0\<rparr> 0 0) [HostStatus, Dev] = [UNKNOWN]"
  by (simp add: Baton_init_def status_def UNKNOWN_def)

text \<open>
  C9, amended: \<^verbatim>\<open>status()\<close> has no fault outcome; in every state, whatever the kernel
  is doing, it returns the status word. In a run from a buffer whose status word is not
  terminal at construction, TIMED_OUT and ABORTED are returned only after the kernel has
  stored that value.
\<close>

theorem status_is_the_word:
  "polls s (evs @ [HostStatus]) = polls s evs @ [status_word (comm (run s evs))] \<and>
   (status_word mem \<noteq> TIMED_OUT \<and> status_word mem \<noteq> ABORTED \<longrightarrow>
    v \<in> set (polls (Baton_init mem now t) evs) \<longrightarrow> v = TIMED_OUT \<or> v = ABORTED \<longrightarrow>
      v \<in> set (writes (Baton_init mem now t) evs))"
proof -
  have a: "polls s (evs @ [HostStatus]) = polls s evs @ [status_word (comm (run s evs))]"
    by (simp add: polls_append status_def)
  have b: "v \<in> set (writes (Baton_init mem now t) evs)"
    if m: "status_word mem \<noteq> TIMED_OUT" "status_word mem \<noteq> ABORTED"
      and v: "v \<in> set (polls (Baton_init mem now t) evs)" and t: "v = TIMED_OUT \<or> v = ABORTED"
  proof -
    obtain xs ys where evs: "evs = xs @ HostStatus # ys"
      and vx: "v = status (comm (run (Baton_init mem now t) xs))"
      using polls_mem [OF v] by blast
    define s1 where "s1 = run (Baton_init mem now t) xs"
    have "status_word (comm s1) = TIMED_OUT \<or> status_word (comm s1) = ABORTED"
      using t vx by (simp add: s1_def status_def)
    then have "writes (Baton_init mem now t) xs = [RUNNING, status_word (comm s1)]"
      using terminal_word_written [OF m s1_def] by simp
    then have "v \<in> set (writes (Baton_init mem now t) xs)"
      using vx by (simp add: s1_def status_def)
    then show ?thesis using writes_prefix [of "Baton_init mem now t" xs "HostStatus # ys"] evs
      by blast
  qed
  show ?thesis using a b by blast
qed

theorem status_is_the_word_witness:
  "status_word \<lparr>abort_flag = 0, status_word = 0\<rparr> \<noteq> TIMED_OUT \<and>
   status_word \<lparr>abort_flag = 0, status_word = 0\<rparr> \<noteq> ABORTED \<and>
   ABORTED \<in> set (polls (Baton_init \<lparr>abort_flag = 0, status_word = 0\<rparr> 0 0)
      [HostAbort, Dev, Dev, Dev, Dev, HostStatus]) \<and>
   ABORTED \<in> set (writes (Baton_init \<lparr>abort_flag = 0, status_word = 0\<rparr> 0 0)
      [HostAbort, Dev, Dev, Dev, Dev, HostStatus])"
proof -
  have m: "status_word \<lparr>abort_flag = 0, status_word = 0\<rparr> \<noteq> TIMED_OUT"
    "status_word \<lparr>abort_flag = 0, status_word = 0\<rparr> \<noteq> ABORTED"
    by (simp_all add: TIMED_OUT_def ABORTED_def)
  have p: "ABORTED \<in> set (polls (Baton_init \<lparr>abort_flag = 0, status_word = 0\<rparr> 0 0)
      [HostAbort, Dev, Dev, Dev, Dev, HostStatus])"
    by (simp add: Baton_init_def abort_def global_timer_ns_def status_def)
  show ?thesis
    using status_is_the_word [of _ "[HostAbort, Dev, Dev, Dev, Dev, HostStatus]"
        "\<lparr>abort_flag = 0, status_word = 0\<rparr>" ABORTED 0 0] m p
    by blast
qed


text \<open>
  C10. \<^verbatim>\<open>status()\<close> validates nothing: whatever 32-bit value the second word of the
  buffer holds is returned as the \<^verbatim>\<open>BatonStatus\<close>, so a word outside the four
  enumerators comes back as a status outside them.
\<close>

theorem status_returns_word_unchecked:
  "status (c\<lparr>status_word := w\<rparr>) = w \<and>
   (w \<notin> {UNKNOWN, RUNNING, TIMED_OUT, ABORTED} \<longrightarrow>
      status (c\<lparr>status_word := w\<rparr>) \<notin> {UNKNOWN, RUNNING, TIMED_OUT, ABORTED})"
  by (simp add: status_def)

theorem status_returns_word_unchecked_witness:
  "(7 :: 32 word) \<notin> {UNKNOWN, RUNNING, TIMED_OUT, ABORTED} \<and>
   status (\<lparr>abort_flag = 0, status_word = 0\<rparr>\<lparr>status_word := 7\<rparr>) = 7 \<and>
   status (\<lparr>abort_flag = 0, status_word = 0\<rparr>\<lparr>status_word := 7\<rparr>)
     \<notin> {UNKNOWN, RUNNING, TIMED_OUT, ABORTED}"
  using status_returns_word_unchecked
    [where c = "\<lparr>abort_flag = 0, status_word = 0\<rparr>" and w = 7]
  by (simp add: UNKNOWN_def RUNNING_def TIMED_OUT_def ABORTED_def)

end
